theory Spec2Isabelle
  imports Main "HOL-Library.Word" "HOL-Library.Sublist"
begin

section \<open>Exceptions\<close>

text \<open>
  The Python exceptions that the two modules raise, catch or tell apart.
  \<open>ConnectionError\<close> is \<^verbatim>\<open>skein.exceptions.ConnectionError\<close>; \<open>OSError\<close> carries
  its errno (\<^verbatim>\<open>socket.error\<close> is \<^verbatim>\<open>OSError\<close>); \<open>Exception\<close> stands for any other
  exception, with its message.
\<close>

datatype exc =
    KeyboardInterrupt
  | SystemExit
  | ConnectionError
  | KeyError string
  | RuntimeError string
  | ValueError string
  | AssertionError
  | StopIteration
  | OSError nat
  | Exception string

section \<open>\<^verbatim>\<open>_internal.xset_environ\<close>\<close>

text \<open>
  \<^verbatim>\<open>os.environ\<close> is a dictionary from names to values, both strings. The keyword
  arguments of \<^verbatim>\<open>xset_environ(**kwargs)\<close> are a dictionary in insertion order: a list
  of pairs.
\<close>

type_synonym environ = "string \<rightharpoonup> string"

text \<open>
  The first loop of \<^verbatim>\<open>xset_environ\<close>:
  \<^verbatim>\<open>
    for key, value in kwargs.items():
        if os.environ[key]:
            raise RuntimeError(f"{key} already set in os.environ: {value}")
  \<close>
  \<^verbatim>\<open>os.environ[key]\<close> raises \<^verbatim>\<open>KeyError(key)\<close> when the name is absent, and a
  string is true when it is not empty.
\<close>

fun xset_environ_check :: "environ \<Rightarrow> (string \<times> string) list \<Rightarrow> exc option" where
  "xset_environ_check env [] = None"
| "xset_environ_check env ((key, val) # kwargs) =
     (case env key of
        None \<Rightarrow> Some (KeyError key)
      | Some v \<Rightarrow>
          if v \<noteq> [] then Some (RuntimeError (key @ '' already set in os.environ: '' @ val))
          else xset_environ_check env kwargs)"

text \<open>\<^verbatim>\<open>os.environ.update(kwargs)\<close>: one assignment per item, in order.\<close>

fun environ_update :: "environ \<Rightarrow> (string \<times> string) list \<Rightarrow> environ" where
  "environ_update env [] = env"
| "environ_update env ((key, val) # kwargs) = environ_update (env(key \<mapsto> val)) kwargs"

text \<open>
  The code after the \<^verbatim>\<open>yield\<close>:
  \<^verbatim>\<open>
    for key in kwargs:
        try:
            os.environ.pop(key)
        except KeyError:
            raise RuntimeError(f"{key} is missing from os.environ")
  \<close>
  The loop stops at the first missing name; the names after it are not popped.
\<close>

fun xset_environ_pop :: "environ \<Rightarrow> string list \<Rightarrow> exc option \<times> environ" where
  "xset_environ_pop env [] = (None, env)"
| "xset_environ_pop env (key # keys) =
     (case env key of
        None \<Rightarrow> (Some (RuntimeError (key @ '' is missing from os.environ'')), env)
      | Some v \<Rightarrow> xset_environ_pop (env(key := None)) keys)"

text \<open>
  \<^verbatim>\<open>with xset_environ(**kwargs): body\<close>. The function is a generator under
  \<^verbatim>\<open>@contextmanager\<close>: entering the scope runs it up to the \<^verbatim>\<open>yield\<close>; leaving
  the scope normally resumes it after the \<^verbatim>\<open>yield\<close>; leaving it by an exception
  throws the exception into the generator at the \<^verbatim>\<open>yield\<close>, which stands in no
  \<^verbatim>\<open>try\<close>, so the generator ends there and the exception goes on to the caller.
  The body is a state transformer on the environment that may raise. The result is the
  exception that leaves the \<^verbatim>\<open>with\<close> statement, if any, and the environment then.
\<close>

definition xset_environ ::
  "(string \<times> string) list \<Rightarrow> (environ \<Rightarrow> exc option \<times> environ) \<Rightarrow> environ
     \<Rightarrow> exc option \<times> environ" where
  "xset_environ kwargs body env =
     (case xset_environ_check env kwargs of
        Some e \<Rightarrow> (Some e, env)
      | None \<Rightarrow>
          (case body (environ_update env kwargs) of
             (Some e, env') \<Rightarrow> (Some e, env')
           | (None, env') \<Rightarrow> xset_environ_pop env' (map fst kwargs)))"

section \<open>Decimal numerals\<close>

text \<open>
  \<^verbatim>\<open>str(n)\<close> for a non-negative integer, as the f-strings \<^verbatim>\<open>f"ps:{idx}"\<close> and
  \<^verbatim>\<open>f"{host}:{port}"\<close> print it: decimal digits, most significant first, no leading
  zero.
\<close>

definition digit_char :: "nat \<Rightarrow> char" where
  "digit_char d = ''0123456789'' ! d"

function str_nat :: "nat \<Rightarrow> string" where
  "str_nat n = (if n < 10 then [digit_char n] else str_nat (n div 10) @ [digit_char (n mod 10)])"
  by pat_completeness auto
termination
  by (relation "measure (\<lambda>n. n)") auto

declare str_nat.simps [simp del]

section \<open>\<^verbatim>\<open>_internal._spec_from_iter\<close> and \<^verbatim>\<open>_internal._spec_from_kv\<close>\<close>

text \<open>
  A cluster spec is a dictionary from a task type to the list of its socket addresses.
  \<^verbatim>\<open>spec.setdefault(role, []).append(v)\<close> appends to the list of the role, which
  it creates when the role is not a key yet.
\<close>

type_synonym cluster_spec = "string \<rightharpoonup> string list"

definition setdefault_append :: "cluster_spec \<Rightarrow> string \<Rightarrow> string \<Rightarrow> cluster_spec" where
  "setdefault_append spec role v =
     spec(role \<mapsto> (case spec role of None \<Rightarrow> [] | Some vs \<Rightarrow> vs) @ [v])"

text \<open>
  The iterator \<^verbatim>\<open>reserved\<close> is the list of the items it still has to give;
  \<^verbatim>\<open>next(reserved)\<close> raises \<^verbatim>\<open>StopIteration\<close> on the empty list. One loop
  \<^verbatim>\<open>for _ in range(n): spec.setdefault(role, []).append(next(reserved))\<close>:
\<close>

fun spec_iter_loop ::
  "string \<Rightarrow> nat \<Rightarrow> string list \<Rightarrow> cluster_spec \<Rightarrow> exc + cluster_spec \<times> string list" where
  "spec_iter_loop role 0 reserved spec = Inr (spec, reserved)"
| "spec_iter_loop role (Suc n) [] spec = Inl StopIteration"
| "spec_iter_loop role (Suc n) (x # reserved) spec =
     spec_iter_loop role n reserved (setdefault_append spec role x)"

text \<open>
  \<^verbatim>\<open>_spec_from_iter(reserved, num_workers, num_ps)\<close>: the chief, then the loop of the
  workers, then the loop of the parameter servers. \<^verbatim>\<open>range(n)\<close> is empty for a
  negative \<open>n\<close>. The result is the spec and what is left of the iterator.
\<close>

definition spec_from_iter ::
  "string list \<Rightarrow> int \<Rightarrow> int \<Rightarrow> exc + cluster_spec \<times> string list" where
  "spec_from_iter reserved num_workers num_ps =
     (case reserved of
        [] \<Rightarrow> Inl StopIteration
      | c # reserved1 \<Rightarrow>
          (case spec_iter_loop ''worker'' (nat num_workers) reserved1 [''chief'' \<mapsto> [c]] of
             Inl e \<Rightarrow> Inl e
           | Inr (spec, reserved2) \<Rightarrow> spec_iter_loop ''ps'' (nat num_ps) reserved2 spec))"

text \<open>
  The key-value store \<^verbatim>\<open>kv\<close> is the dictionary of the values published so far and
  ever; \<^verbatim>\<open>kv.wait(key)\<close> returns the value of a published key and blocks for ever on
  a key that is never published. The builders return the keys they waited for, in the
  order of the calls, and the spec, or \<open>None\<close> when a call never returned. One loop
  \<^verbatim>\<open>for idx in range(n): spec.setdefault(role, []).append(kv.wait(f"{role}:{idx}"))\<close>:
\<close>

definition barrier_key :: "string \<Rightarrow> nat \<Rightarrow> string" where
  "barrier_key role idx = role @ '':'' @ str_nat idx"

fun spec_kv_loop ::
  "(string \<rightharpoonup> string) \<Rightarrow> string \<Rightarrow> nat list \<Rightarrow> string list \<Rightarrow> cluster_spec
     \<Rightarrow> string list \<times> cluster_spec option" where
  "spec_kv_loop kv role [] waited spec = (waited, Some spec)"
| "spec_kv_loop kv role (idx # idxs) waited spec =
     (case kv (barrier_key role idx) of
        None \<Rightarrow> (waited @ [barrier_key role idx], None)
      | Some v \<Rightarrow>
          spec_kv_loop kv role idxs (waited @ [barrier_key role idx])
            (setdefault_append spec role v))"

definition spec_from_kv ::
  "(string \<rightharpoonup> string) \<Rightarrow> int \<Rightarrow> int \<Rightarrow> string list \<times> cluster_spec option" where
  "spec_from_kv kv num_workers num_ps =
     (case kv ''chief:0'' of
        None \<Rightarrow> ([''chief:0''], None)
      | Some c \<Rightarrow>
          (case spec_kv_loop kv ''ps'' [0..<nat num_ps] [''chief:0''] [''chief'' \<mapsto> [c]] of
             (waited, None) \<Rightarrow> (waited, None)
           | (waited, Some spec) \<Rightarrow>
               spec_kv_loop kv ''worker'' [0..<nat num_workers] waited spec))"

section \<open>\<^verbatim>\<open>_internal.iter_available_sock_addrs\<close>\<close>

text \<open>
  The operating system answers \<^verbatim>\<open>s.bind(("", 0))\<close> with a port of its choice or with
  an error number. Its answer may depend on the ports that open sockets hold and on the
  time, here the number of the attempt. \<^verbatim>\<open>errno.EADDRINUSE\<close> is 98 on Linux.
\<close>

datatype bind_result = Bound nat | BindError nat

type_synonym bind_oracle = "nat list \<Rightarrow> nat \<Rightarrow> bind_result"

definition EADDRINUSE :: nat where
  "EADDRINUSE = 98"

text \<open>
  The state of the generator: the sockets its \<^verbatim>\<open>ExitStack\<close> holds open, newest
  first, each with the port it is bound to if \<^verbatim>\<open>bind\<close> succeeded, and the number of
  \<^verbatim>\<open>bind\<close> calls made so far.
\<close>

record sock_gen =
  held :: "nat option list"
  attempts :: nat

definition bound_ports :: "sock_gen \<Rightarrow> nat list" where
  "bound_ports g = List.map_filter (\<lambda>s. s) (held g)"

definition sock_gen_init :: sock_gen where
  "sock_gen_init = \<lparr>held = [], attempts = 0\<rparr>"

text \<open>
  One \<^verbatim>\<open>next()\<close> on the generator: the body of \<^verbatim>\<open>while True\<close> up to the
  \<^verbatim>\<open>yield\<close>. Every socket is entered into the stack before \<^verbatim>\<open>bind\<close>, so it
  stays open whatever \<^verbatim>\<open>bind\<close> answers. \<^verbatim>\<open>EADDRINUSE\<close> goes round the loop again;
  any other error leaves the \<^verbatim>\<open>with\<close> block, which closes every socket. The loop has
  no bound of its own: the fuel counts the attempts allowed, and \<open>None\<close> says that they
  were all used up without an answer.
\<close>

fun iter_available_sock_addrs ::
  "bind_oracle \<Rightarrow> string \<Rightarrow> nat \<Rightarrow> sock_gen \<Rightarrow> ((exc + string) \<times> sock_gen) option" where
  "iter_available_sock_addrs os host 0 g = None"
| "iter_available_sock_addrs os host (Suc fuel) g =
     (case os (bound_ports g) (attempts g) of
        BindError e \<Rightarrow>
          if e = EADDRINUSE
          then iter_available_sock_addrs os host fuel
                 \<lparr>held = None # held g, attempts = Suc (attempts g)\<rparr>
          else Some (Inl (OSError e), \<lparr>held = [], attempts = Suc (attempts g)\<rparr>)
      | Bound port \<Rightarrow>
          Some (Inr (host @ '':'' @ str_nat port),
                \<lparr>held = Some port # held g, attempts = Suc (attempts g)\<rparr>))"

text \<open>
  The first \<open>n\<close> items of the generator, each \<^verbatim>\<open>next()\<close> with the same fuel; the
  draws end at the first exception.
\<close>

fun draw_sock_addrs ::
  "bind_oracle \<Rightarrow> string \<Rightarrow> nat \<Rightarrow> nat \<Rightarrow> sock_gen \<Rightarrow> ((exc + string list) \<times> sock_gen) option" where
  "draw_sock_addrs os host fuel 0 g = Some (Inr [], g)"
| "draw_sock_addrs os host fuel (Suc n) g =
     (case iter_available_sock_addrs os host fuel g of
        None \<Rightarrow> None
      | Some (Inl e, g') \<Rightarrow> Some (Inl e, g')
      | Some (Inr addr, g') \<Rightarrow>
          (case draw_sock_addrs os host fuel n g' of
             None \<Rightarrow> None
           | Some (Inl e, g'') \<Rightarrow> Some (Inl e, g'')
           | Some (Inr addrs, g'') \<Rightarrow> Some (Inr (addr # addrs), g'')))"

text \<open>
  What the operating system guarantees: \<^verbatim>\<open>bind\<close> to port 0 never gives a port that
  an open socket is bound to.
\<close>

definition os_fresh :: "bind_oracle \<Rightarrow> bool" where
  "os_fresh os = (\<forall>ports k p. os ports k = Bound p \<longrightarrow> p \<notin> set ports)"

text \<open>
  An operating system for the examples: every other \<^verbatim>\<open>bind\<close> fails with
  \<^verbatim>\<open>EADDRINUSE\<close>, the others give a port above every port held.
\<close>

definition example_os :: bind_oracle where
  "example_os ports k = (if even k then BindError EADDRINUSE else Bound (1024 + sum_list ports))"

section \<open>\<^verbatim>\<open>cluster._shutdown\<close>\<close>

text \<open>
  The calls that the submitting process makes, kept in their order as a trace:
  \<^verbatim>\<open>skein.Client(...)\<close>, \<^verbatim>\<open>client.submit(spec)\<close>, \<^verbatim>\<open>client.connect(app_id)\<close>,
  \<^verbatim>\<open>time.sleep(secs)\<close>, \<^verbatim>\<open>client.application_report(app_id)\<close>,
  \<^verbatim>\<open>app.get_containers()\<close> and \<^verbatim>\<open>app.shutdown(status)\<close>. All but the sleep are
  calls to the resource manager.
\<close>

datatype TaskFlavor = CPU | GPU

record service =
  command_env :: TaskFlavor
  command_num_ps :: int
  command_num_workers :: int
  resources :: "int \<times> int"
  service_instances :: int
  node_label :: string

datatype event =
    ClientOpen
  | Submit "(string \<times> service) list" string
  | Connect string
  | Sleep int
  | Report string
  | GetContainers
  | Shutdown string

text \<open>
  \<^verbatim>\<open>
    if isinstance(exc_value, (KeyboardInterrupt, SystemExit)):
        status = "KILLED"
    elif exc_value is not None:
        status = "FAILED"
    else:
        status = "SUCCEEDED"
  \<close>
\<close>

definition shutdown_status :: "exc option \<Rightarrow> string" where
  "shutdown_status exc_value =
     (if exc_value = Some KeyboardInterrupt \<or> exc_value = Some SystemExit then ''KILLED''
      else if exc_value \<noteq> None then ''FAILED''
      else ''SUCCEEDED'')"

text \<open>
  \<^verbatim>\<open>with _shutdown(app): body\<close>, given how the body ended: \<open>Inl e\<close> when \<open>e\<close> left
  it, \<open>Inr v\<close> when it ended normally with the value \<open>v\<close>. The \<^verbatim>\<open>finally\<close> block
  reads \<^verbatim>\<open>sys.exc_info()\<close>, the exception being handled: the one thrown into the
  generator when the body raised; otherwise the one that a frame further up the stack
  is handling in an \<^verbatim>\<open>except\<close> clause (\<open>handled\<close>), if there is one. \<open>shutdown_res\<close>
  is what \<^verbatim>\<open>app.shutdown(status)\<close> raises. The result is the call made and how the
  \<^verbatim>\<open>with\<close> statement ends.
\<close>

definition shutdown_scope ::
  "exc option \<Rightarrow> exc option \<Rightarrow> exc + 'a \<Rightarrow> event list \<times> (exc + 'a)" where
  "shutdown_scope handled shutdown_res body_res =
     (let exc_value = (case body_res of Inl e \<Rightarrow> Some e | Inr v \<Rightarrow> handled);
          status = shutdown_status exc_value
      in ([Shutdown status],
          (case shutdown_res of
             None \<Rightarrow> body_res
           | Some e \<Rightarrow> if e = ConnectionError then body_res else Inl e)))"

section \<open>\<^verbatim>\<open>cluster._await_termination\<close>\<close>

datatype FinalStatus = SUCCEEDED | FAILED | KILLED | UNDEFINED

record container =
  container_id :: string
  container_state :: string
  yarn_container_logs :: string

type_synonym containers = "string \<rightharpoonup> string \<times> string"

text \<open>
  \<^verbatim>\<open>for c in app.get_containers(): containers[c.id] = (c.state, c.yarn_container_logs)\<close>
\<close>

fun merge_containers :: "containers \<Rightarrow> container list \<Rightarrow> containers" where
  "merge_containers seen [] = seen"
| "merge_containers seen (c # cs) =
     merge_containers (seen(container_id c \<mapsto> (container_state c, yarn_container_logs c))) cs"

text \<open>
  What one round of the loop meets: \<^verbatim>\<open>time.sleep\<close> raises (an interrupt arrives),
  \<^verbatim>\<open>application_report\<close> raises, the report gives a status and
  \<^verbatim>\<open>get_containers\<close> raises, or both calls answer.
\<close>

datatype poll =
    SleepRaises exc
  | ReportRaises exc
  | ContainersRaise FinalStatus exc
  | Polled FinalStatus "container list"

text \<open>\<^verbatim>\<open>except skein.exceptions.ConnectionError: pass\<close> around the loop.\<close>

definition except_ConnectionError ::
  "exc \<Rightarrow> FinalStatus \<times> containers \<Rightarrow> exc + FinalStatus \<times> containers" where
  "except_ConnectionError e vars = (if e = ConnectionError then Inr vars else Inl e)"

text \<open>
  The \<^verbatim>\<open>try\<close> statement with the \<^verbatim>\<open>while\<close> loop, run against the manager's answers to
  the rounds to come. The result is how the statement ends (an exception, or the values
  of \<^verbatim>\<open>final_status\<close> and \<^verbatim>\<open>containers\<close>), the calls made, and the answers not
  asked for; it is \<open>None\<close> when the loop is still running after the last answer given.
\<close>

fun await_loop ::
  "int \<Rightarrow> string \<Rightarrow> FinalStatus \<Rightarrow> containers \<Rightarrow> poll list
     \<Rightarrow> ((exc + FinalStatus \<times> containers) \<times> event list \<times> poll list) option" where
  "await_loop secs app_id final_status seen [] =
     (if final_status = UNDEFINED then None else Some (Inr (final_status, seen), [], []))"
| "await_loop secs app_id final_status seen (p # polls) =
     (if final_status \<noteq> UNDEFINED then Some (Inr (final_status, seen), [], p # polls)
      else
        (case p of
           SleepRaises e \<Rightarrow>
             Some (except_ConnectionError e (final_status, seen), [Sleep secs], polls)
         | ReportRaises e \<Rightarrow>
             Some (except_ConnectionError e (final_status, seen),
                   [Sleep secs, Report app_id], polls)
         | ContainersRaise status e \<Rightarrow>
             Some (except_ConnectionError e (status, seen),
                   [Sleep secs, Report app_id, GetContainers], polls)
         | Polled status cs \<Rightarrow>
             (case await_loop secs app_id status (merge_containers seen cs) polls of
                None \<Rightarrow> None
              | Some (res, evs, rest) \<Rightarrow>
                  Some (res, [Sleep secs, Report app_id, GetContainers] @ evs, rest))))"

text \<open>
  The manager as the monitoring code meets it: what \<^verbatim>\<open>skein.Client(...)\<close>,
  \<^verbatim>\<open>client.submit\<close>, \<^verbatim>\<open>client.connect\<close> and \<^verbatim>\<open>app.shutdown\<close> raise, if anything,
  the application id that \<^verbatim>\<open>submit\<close> returns, and the rounds of the loop.
\<close>

record manager =
  client_res :: "exc option"
  submit_res :: "exc + string"
  connect_res :: "exc option"
  polls :: "poll list"
  shutdown_res :: "exc option"

text \<open>
  \<^verbatim>\<open>_await_termination(client, app_id, poll_every_secs)\<close>. \<^verbatim>\<open>client.connect\<close> is
  called before the \<^verbatim>\<open>with\<close> statement is entered: when it raises, nothing is shut
  down.
\<close>

definition await_termination ::
  "exc option \<Rightarrow> manager \<Rightarrow> string \<Rightarrow> int
     \<Rightarrow> ((exc + FinalStatus \<times> containers) \<times> event list \<times> poll list) option" where
  "await_termination handled m app_id poll_every_secs =
     (case connect_res m of
        Some e \<Rightarrow> Some (Inl e, [Connect app_id], polls m)
      | None \<Rightarrow>
          (case await_loop poll_every_secs app_id UNDEFINED Map.empty (polls m) of
             None \<Rightarrow> None
           | Some (res, evs, rest) \<Rightarrow>
               (case shutdown_scope handled (shutdown_res m) res of
                  (evs', res') \<Rightarrow> Some (res', [Connect app_id] @ evs @ evs', rest))))"

section \<open>\<^verbatim>\<open>cluster.YARNCluster.run\<close>\<close>

record TaskSpec =
  memory :: int
  vcores :: int
  instances :: int
  flavor :: TaskFlavor

text \<open>
  The values of \<^verbatim>\<open>task_specs\<close> are references to objects, and the code tells the
  dummy object \<^verbatim>\<open>TaskSpec.NONE = TaskSpec(0, 0, 0)\<close> from every other one by
  identity (\<^verbatim>\<open>task_spec is TaskSpec.NONE\<close>): \<open>NONE\<close> is that object, \<open>Task t\<close> any
  other object, with the fields \<open>t\<close>.
\<close>

datatype task_spec_ref = NONE | Task TaskSpec

fun task_spec_fields :: "task_spec_ref \<Rightarrow> TaskSpec" where
  "task_spec_fields NONE = \<lparr>memory = 0, vcores = 0, instances = 0, flavor = CPU\<rparr>"
| "task_spec_fields (Task t) = t"

definition all_task_types :: "string set" where
  "all_task_types = {''chief'', ''worker'', ''ps'', ''evaluator''}"

text \<open>
  \<^verbatim>\<open>task_specs = defaultdict(lambda: TaskSpec.NONE, task_specs)\<close>: reading a key that
  is missing gives \<^verbatim>\<open>TaskSpec.NONE\<close> and stores it under the key. The dictionary is
  the list of its items in insertion order.
\<close>

definition defaultdict_get ::
  "(string \<times> task_spec_ref) list \<Rightarrow> string \<Rightarrow> task_spec_ref \<times> (string \<times> task_spec_ref) list" where
  "defaultdict_get d k =
     (case map_of d k of Some v \<Rightarrow> (v, d) | None \<Rightarrow> (NONE, d @ [(k, NONE)]))"

text \<open>
  The checks that open \<^verbatim>\<open>run\<close>:
  \<^verbatim>\<open>
    if not task_specs.keys() <= all_task_types:
        raise ValueError(f"task_spec keys must be a subset of: {all_task_types}")
    task_specs = defaultdict(lambda: TaskSpec.NONE, task_specs)
    assert task_specs["evaluator"].instances <= 1
    assert task_specs["chief"].instances == 1
  \<close>
  The message of the \<^verbatim>\<open>ValueError\<close> ends with the set as Python prints it, in an
  order that is not fixed; the model keeps the fixed part. An \<^verbatim>\<open>assert\<close> raises
  \<^verbatim>\<open>AssertionError\<close> (the interpreter is not run with \<^verbatim>\<open>-O\<close>).
\<close>

definition run_validate ::
  "(string \<times> task_spec_ref) list \<Rightarrow> exc + (string \<times> task_spec_ref) list" where
  "run_validate task_specs =
     (if \<not> set (map fst task_specs) \<subseteq> all_task_types
      then Inl (ValueError ''task_spec keys must be a subset of: '')
      else
        (case defaultdict_get task_specs ''evaluator'' of
           (evaluator, d1) \<Rightarrow>
             if \<not> instances (task_spec_fields evaluator) \<le> 1 then Inl AssertionError
             else
               (case defaultdict_get d1 ''chief'' of
                  (chief, d2) \<Rightarrow>
                    if instances (task_spec_fields chief) \<noteq> 1 then Inl AssertionError
                    else Inr d2)))"

text \<open>
  The loop that builds \<^verbatim>\<open>services\<close>, over \<^verbatim>\<open>list(task_specs.items())\<close>. A service
  keeps what the loop computes from the task spec: the flavor that picks the Python
  environment of the command, the two counts of the command line, the resources, the
  instances and the node label. Its files and its environment come from modules that
  are not part of the sources and are left out.
\<close>

fun services_of ::
  "(TaskFlavor \<Rightarrow> string) \<Rightarrow> int \<Rightarrow> int \<Rightarrow> (string \<times> task_spec_ref) list
     \<Rightarrow> (string \<times> service) list" where
  "services_of node_label_fn num_ps num_workers [] = []"
| "services_of node_label_fn num_ps num_workers ((task_type, NONE) # items) =
     services_of node_label_fn num_ps num_workers items"
| "services_of node_label_fn num_ps num_workers ((task_type, Task t) # items) =
     (task_type,
      \<lparr>command_env = flavor t, command_num_ps = num_ps, command_num_workers = num_workers,
       resources = (memory t, vcores t), service_instances = instances t,
       node_label = node_label_fn (flavor t)\<rparr>)
     # services_of node_label_fn num_ps num_workers items"

text \<open>
  \<^verbatim>\<open>run\<close>. Between the checks and \<^verbatim>\<open>skein.Client(...)\<close> the method packs files and
  environments on the local machine (\<^verbatim>\<open>env.create()\<close>, \<^verbatim>\<open>zip_inplace\<close>,
  \<^verbatim>\<open>assert target not in task_files\<close>, \<^verbatim>\<open>encode_fn\<close>, \<^verbatim>\<open>env.extended_with\<close>,
  \<^verbatim>\<open>skein.Security.from_new_directory\<close>); \<open>local_res\<close> is the exception that this
  work raises, if any. The result is the exception that leaves \<^verbatim>\<open>run\<close>, if any, and
  the calls made to the manager; it is \<open>None\<close> when the monitoring loop does not end.
\<close>

definition run ::
  "exc option \<Rightarrow> manager \<Rightarrow> exc option \<Rightarrow> (TaskFlavor \<Rightarrow> string) \<Rightarrow> string
     \<Rightarrow> (string \<times> task_spec_ref) list \<Rightarrow> (exc option \<times> event list) option" where
  "run handled m local_res node_label_fn queue task_specs =
     (case run_validate task_specs of
        Inl e \<Rightarrow> Some (Some e, [])
      | Inr d \<Rightarrow>
          (case local_res of
             Some e \<Rightarrow> Some (Some e, [])
           | None \<Rightarrow>
               (let num_ps = instances (task_spec_fields (fst (defaultdict_get d ''ps'')));
                    num_workers = instances (task_spec_fields (fst (defaultdict_get d ''worker'')));
                    services = services_of node_label_fn num_ps num_workers d
                in
                  (case client_res m of
                     Some e \<Rightarrow> Some (Some e, [ClientOpen])
                   | None \<Rightarrow>
                       (case submit_res m of
                          Inl e \<Rightarrow> Some (Some e, [ClientOpen, Submit services queue])
                        | Inr app_id \<Rightarrow>
                            (case await_termination handled m app_id 10 of
                               None \<Rightarrow> None
                             | Some (res, evs, rest) \<Rightarrow>
                                 Some ((case res of Inl e \<Rightarrow> Some e | Inr v \<Rightarrow> None),
                                       [ClientOpen, Submit services queue] @ evs)))))))"

section \<open>\<^verbatim>\<open>_internal.encode_fn\<close> and \<^verbatim>\<open>_internal.decode_fn\<close>\<close>

text \<open>
  \<^verbatim>\<open>base64.b64encode\<close> and \<^verbatim>\<open>base64.b64decode\<close> are Python's standard library, the
  Base64 of RFC 4648 with the alphabet \<^verbatim>\<open>A-Z a-z 0-9 + /\<close> and the padding \<^verbatim>\<open>=\<close>.
  Three bytes make a number of 24 bits, printed as four digits of 6 bits; a last group
  of one or two bytes is filled with zero bits and printed as two or three digits. The
  encoder returns ASCII bytes, which \<^verbatim>\<open>.decode()\<close> turns into the string of the same
  characters: the model gives the string at once.
\<close>

type_synonym byte = "8 word"

definition b64alphabet :: string where
  "b64alphabet = ''ABCDEFGHIJKLMNOPQRSTUVWXYZabcdefghijklmnopqrstuvwxyz0123456789+/''"

definition b64char :: "nat \<Rightarrow> char" where
  "b64char i = b64alphabet ! i"

fun index_of :: "'a \<Rightarrow> 'a list \<Rightarrow> nat option" where
  "index_of x [] = None"
| "index_of x (y # ys) = (if x = y then Some 0 else map_option Suc (index_of x ys))"

definition b64index :: "char \<Rightarrow> nat option" where
  "b64index c = index_of c b64alphabet"

fun b64encode :: "byte list \<Rightarrow> string" where
  "b64encode [] = []"
| "b64encode [a] =
     (let n = unat a * 65536 in
      [b64char (n div 262144), b64char (n div 4096 mod 64), CHR ''='', CHR ''=''])"
| "b64encode [a, b] =
     (let n = unat a * 65536 + unat b * 256 in
      [b64char (n div 262144), b64char (n div 4096 mod 64), b64char (n div 64 mod 64),
       CHR ''=''])"
| "b64encode (a # b # c # bs) =
     (let n = unat a * 65536 + unat b * 256 + unat c in
      [b64char (n div 262144), b64char (n div 4096 mod 64), b64char (n div 64 mod 64),
       b64char (n mod 64)] @ b64encode bs)"

text \<open>
  The decoder, on the strings in canonical form: groups of four digits, the last one
  with one or two \<^verbatim>\<open>=\<close> when the bytes run out. On any other string the model raises
  \<^verbatim>\<open>ValueError\<close> (\<^verbatim>\<open>binascii.Error\<close> is one); Python's decoder is more lenient
  there, and no statement below depends on what it does then.
\<close>

definition b64_error :: exc where
  "b64_error = ValueError ''Incorrect padding''"

fun b64decode :: "string \<Rightarrow> exc + byte list" where
  "b64decode [] = Inr []"
| "b64decode (c1 # c2 # c3 # c4 # cs) =
     (case (b64index c1, b64index c2) of
        (Some i1, Some i2) \<Rightarrow>
          if c3 = CHR ''='' \<and> c4 = CHR ''='' \<and> cs = []
          then Inr [of_nat ((i1 * 64 + i2) div 16)]
          else
            (case b64index c3 of
               None \<Rightarrow> Inl b64_error
             | Some i3 \<Rightarrow>
                 if c4 = CHR ''='' \<and> cs = []
                 then
                   (let n = (i1 * 64 + i2) * 64 + i3 in
                    Inr [of_nat (n div 1024), of_nat (n div 4 mod 256)])
                 else
                   (case b64index c4 of
                      None \<Rightarrow> Inl b64_error
                    | Some i4 \<Rightarrow>
                        (case b64decode cs of
                           Inl e \<Rightarrow> Inl e
                         | Inr bs \<Rightarrow>
                             (let n = ((i1 * 64 + i2) * 64 + i3) * 64 + i4 in
                              Inr ([of_nat (n div 65536), of_nat (n div 256 mod 256),
                                    of_nat (n mod 256)] @ bs)))))
      | _ \<Rightarrow> Inl b64_error)"
| "b64decode cs = Inl b64_error"

text \<open>
  \<^verbatim>\<open>dill\<close> is a library outside the repository: \<^verbatim>\<open>dill.dumps\<close> and \<^verbatim>\<open>dill.loads\<close>
  are parameters, each returning its value or raising.
  \<^verbatim>\<open>
    def encode_fn(fn) -> str:
        return b64encode(dill.dumps(fn)).decode()
    def decode_fn(s: str):
        return dill.loads(b64decode(s))
  \<close>
\<close>

definition encode_fn :: "('f \<Rightarrow> exc + byte list) \<Rightarrow> 'f \<Rightarrow> exc + string" where
  "encode_fn dumps fn = (case dumps fn of Inl e \<Rightarrow> Inl e | Inr bs \<Rightarrow> Inr (b64encode bs))"

definition decode_fn :: "(byte list \<Rightarrow> exc + 'f) \<Rightarrow> string \<Rightarrow> exc + 'f" where
  "decode_fn loads s = (case b64decode s of Inl e \<Rightarrow> Inl e | Inr bs \<Rightarrow> loads bs)"

text \<open>The characters that a plain-text transport carries unchanged: the Base64 alphabet and the padding.\<close>

definition b64_text :: "char set" where
  "b64_text = set b64alphabet \<union> {CHR ''=''}"

section \<open>Properties of \<^verbatim>\<open>xset_environ\<close>\<close>

lemma xset_environ_check_unmutated:
  "xset_environ_check env kwargs = Some e \<Longrightarrow> xset_environ kwargs body env = (Some e, env)"
  by (simp add: xset_environ_def)

text \<open>
  C2. The claim: when no name of the mapping is in the environment, entering the scope
  sets all of them. The code reads \<^verbatim>\<open>os.environ[key]\<close> for a name that is absent, so
  with the empty environment and the mapping \<open>A = 1\<close> the scope is never entered:
  \<^verbatim>\<open>KeyError('A')\<close> leaves the \<^verbatim>\<open>with\<close> statement, the body does not run, and
  \<open>A\<close> is not set.
\<close>

theorem xset_environ_absent_name_KeyError:
  "xset_environ [(''A'', ''1'')] body Map.empty = (Some (KeyError ''A''), Map.empty)"
  by (simp add: xset_environ_def)

text \<open>
  The name is set there only when it is already in the environment with the empty
  string as its value, and then the value in place is overwritten.
\<close>

lemma xset_environ_empty_value_overwritten:
  "xset_environ [(''A'', ''1'')] (\<lambda>env. (None, env(''SEEN'' := env ''A''))) [''A'' \<mapsto> []] =
     (None, [''SEEN'' \<mapsto> ''1''])"
  by (simp add: xset_environ_def fun_upd_twist)

text \<open>
  C1. The claim: after the scope exits, by a normal return or by an exception of the
  body, every variable that the scope set is absent from the environment. The code
  removes the variables after a \<^verbatim>\<open>yield\<close> that stands in no \<^verbatim>\<open>try ... finally\<close>,
  so an exception of the body skips the removal: the scope entered with \<open>A = 1\<close> (over
  an \<open>A\<close> that held the empty string) and left by \<^verbatim>\<open>ValueError('boom')\<close> leaves
  \<open>A = 1\<close> in the environment.
\<close>

theorem xset_environ_exception_keeps_variable:
  "xset_environ [(''A'', ''1'')] (\<lambda>env. (Some (ValueError ''boom''), env)) [''A'' \<mapsto> []] =
     (Some (ValueError ''boom''), [''A'' \<mapsto> ''1''])"
  by (simp add: xset_environ_def)

text \<open>
  On a normal exit the variables are removed, and a variable that the body removed
  itself is reported: the loop raises \<^verbatim>\<open>RuntimeError\<close> at the first one.
\<close>

lemma xset_environ_pop_present:
  "distinct keys \<Longrightarrow> set keys \<subseteq> dom env \<Longrightarrow>
   xset_environ_pop env keys = (None, env |` (- set keys))"
proof (induction keys arbitrary: env)
  case Nil
  then show ?case by simp
next
  case (Cons key keys)
  from Cons.prems obtain v where v: "env key = Some v" by auto
  have "set keys \<subseteq> dom (env(key := None))" using Cons.prems by auto
  moreover have "distinct keys" using Cons.prems by simp
  ultimately have "xset_environ_pop (env(key := None)) keys =
      (None, (env(key := None)) |` (- set keys))"
    by (rule Cons.IH [rotated])
  moreover have "(env(key := None)) |` (- set keys) = env |` (- set (key # keys))"
    by (auto simp: restrict_map_def fun_eq_iff)
  ultimately show ?case by (simp add: v)
qed

lemma xset_environ_pop_missing:
  "key \<in> set keys \<Longrightarrow> env key = None \<Longrightarrow> distinct keys \<Longrightarrow>
   \<exists>k env'. xset_environ_pop env keys =
      (Some (RuntimeError (k @ '' is missing from os.environ'')), env')"
proof (induction keys arbitrary: env)
  case Nil
  then show ?case by simp
next
  case (Cons k keys)
  show ?case
  proof (cases "env k")
    case None
    then show ?thesis by simp
  next
    case (Some v)
    with Cons.prems have rest: "key \<in> set keys" "(env(k := None)) key = None" "distinct keys"
      by auto
    have step: "xset_environ_pop env (k # keys) = xset_environ_pop (env(k := None)) keys"
      by (simp add: Some)
    from Cons.IH [of "env(k := None)", OF rest] show ?thesis unfolding step .
  qed
qed

section \<open>Properties of the cluster spec builders\<close>

lemma setdefault_append_apply:
  "setdefault_append spec role v r =
     (if r = role then Some ((case spec role of None \<Rightarrow> [] | Some vs \<Rightarrow> vs) @ [v]) else spec r)"
  by (simp add: setdefault_append_def)

lemma spec_iter_loop_take:
  "n \<le> length reserved \<Longrightarrow>
   \<exists>spec'. spec_iter_loop role n reserved spec = Inr (spec', drop n reserved) \<and>
     (\<forall>r. spec' r =
        (if r = role \<and> n \<noteq> 0
         then Some ((case spec role of None \<Rightarrow> [] | Some vs \<Rightarrow> vs) @ take n reserved)
         else spec r))"
proof (induction n arbitrary: reserved spec)
  case 0
  then show ?case by simp
next
  case (Suc n)
  then obtain x rest where r: "reserved = x # rest" and len: "n \<le> length rest"
    by (cases reserved) auto
  from Suc.IH [OF len, of "setdefault_append spec role x"]
  obtain spec' where run: "spec_iter_loop role n rest (setdefault_append spec role x) = Inr (spec', drop n rest)"
    and at: "\<And>r. spec' r =
        (if r = role \<and> n \<noteq> 0
         then Some ((case setdefault_append spec role x role of None \<Rightarrow> [] | Some vs \<Rightarrow> vs) @ take n rest)
         else setdefault_append spec role x r)"
    by blast
  have "spec_iter_loop role (Suc n) reserved spec = Inr (spec', drop (Suc n) reserved)"
    by (simp add: r run)
  moreover have "spec' q =
        (if q = role \<and> Suc n \<noteq> 0
         then Some ((case spec role of None \<Rightarrow> [] | Some vs \<Rightarrow> vs) @ take (Suc n) reserved)
         else spec q)" for q
    by (simp add: at r setdefault_append_apply)
  ultimately show ?case by blast
qed

lemma spec_iter_loop_short:
  "length reserved < n \<Longrightarrow> spec_iter_loop role n reserved spec = Inl StopIteration"
  by (induction role n reserved spec rule: spec_iter_loop.induct) auto

lemma spec_kv_loop_all:
  "\<forall>idx \<in> set idxs. kv (barrier_key role idx) = Some (f idx) \<Longrightarrow>
   \<exists>spec'. spec_kv_loop kv role idxs waited spec =
        (waited @ map (barrier_key role) idxs, Some spec') \<and>
     (\<forall>r. spec' r =
        (if r = role \<and> idxs \<noteq> []
         then Some ((case spec role of None \<Rightarrow> [] | Some vs \<Rightarrow> vs) @ map f idxs)
         else spec r))"
proof (induction idxs arbitrary: waited spec)
  case Nil
  then show ?case by simp
next
  case (Cons idx idxs)
  have here: "kv (barrier_key role idx) = Some (f idx)"
    and rest: "\<forall>i \<in> set idxs. kv (barrier_key role i) = Some (f i)"
    using Cons.prems by simp_all
  from Cons.IH [OF rest, of "waited @ [barrier_key role idx]" "setdefault_append spec role (f idx)"]
  obtain spec' where run: "spec_kv_loop kv role idxs (waited @ [barrier_key role idx])
        (setdefault_append spec role (f idx)) =
        ((waited @ [barrier_key role idx]) @ map (barrier_key role) idxs, Some spec')"
    and at: "\<And>r. spec' r =
        (if r = role \<and> idxs \<noteq> []
         then Some ((case setdefault_append spec role (f idx) role of None \<Rightarrow> [] | Some vs \<Rightarrow> vs) @ map f idxs)
         else setdefault_append spec role (f idx) r)"
    by blast
  have "spec_kv_loop kv role (idx # idxs) waited spec =
        (waited @ map (barrier_key role) (idx # idxs), Some spec')"
    by (simp add: here run)
  moreover have "spec' q =
        (if q = role \<and> idx # idxs \<noteq> []
         then Some ((case spec role of None \<Rightarrow> [] | Some vs \<Rightarrow> vs) @ map f (idx # idxs))
         else spec q)" for q
    by (simp add: at setdefault_append_apply)
  ultimately show ?case by blast
qed


lemma spec_from_iter_result:
  assumes "1 + nat num_workers + nat num_ps \<le> length reserved"
  shows "\<exists>spec. spec_from_iter reserved num_workers num_ps =
             Inr (spec, drop (1 + nat num_workers + nat num_ps) reserved) \<and>
           (\<forall>r. spec r =
              (if r = ''ps'' \<and> 0 < num_ps
               then Some (take (nat num_ps) (drop (1 + nat num_workers) reserved))
               else if r = ''worker'' \<and> 0 < num_workers
               then Some (take (nat num_workers) (drop 1 reserved))
               else if r = ''chief'' then Some [reserved ! 0]
               else None))"
proof -
  from assms obtain c rest where r: "reserved = c # rest"
    and len: "nat num_workers + nat num_ps \<le> length rest"
    by (cases reserved) auto
  from len have lw: "nat num_workers \<le> length rest" by simp
  from spec_iter_loop_take [OF lw, of "''worker''" "[''chief'' \<mapsto> [c]]"]
  obtain spec1 where run1: "spec_iter_loop ''worker'' (nat num_workers) rest [''chief'' \<mapsto> [c]] =
        Inr (spec1, drop (nat num_workers) rest)"
    and at1: "\<And>r. spec1 r =
        (if r = ''worker'' \<and> nat num_workers \<noteq> 0
         then Some (take (nat num_workers) rest)
         else [''chief'' \<mapsto> [c]] r)"
    by auto
  from len have lp: "nat num_ps \<le> length (drop (nat num_workers) rest)" by simp
  from spec_iter_loop_take [OF lp, of "''ps''" spec1]
  obtain spec2 where run2: "spec_iter_loop ''ps'' (nat num_ps) (drop (nat num_workers) rest) spec1 =
        Inr (spec2, drop (nat num_ps) (drop (nat num_workers) rest))"
    and at2: "\<And>r. spec2 r =
        (if r = ''ps'' \<and> nat num_ps \<noteq> 0
         then Some ((case spec1 ''ps'' of None \<Rightarrow> [] | Some vs \<Rightarrow> vs) @
                    take (nat num_ps) (drop (nat num_workers) rest))
         else spec1 r)"
    by auto
  have "spec_from_iter reserved num_workers num_ps =
          Inr (spec2, drop (1 + nat num_workers + nat num_ps) reserved)"
    by (simp add: spec_from_iter_def r run1 run2 add.commute)
  moreover have "spec2 q =
              (if q = ''ps'' \<and> 0 < num_ps
               then Some (take (nat num_ps) (drop (1 + nat num_workers) reserved))
               else if q = ''worker'' \<and> 0 < num_workers
               then Some (take (nat num_workers) (drop 1 reserved))
               else if q = ''chief'' then Some [reserved ! 0]
               else None)" for q
    by (simp add: at2 at1 r)
  ultimately show ?thesis by blast
qed

lemma spec_from_kv_result:
  assumes chief: "kv ''chief:0'' = Some c"
    and ps: "\<forall>i < nat num_ps. kv (barrier_key ''ps'' i) = Some (p i)"
    and worker: "\<forall>i < nat num_workers. kv (barrier_key ''worker'' i) = Some (w i)"
  shows "\<exists>spec. spec_from_kv kv num_workers num_ps =
             (''chief:0'' # map (barrier_key ''ps'') [0..<nat num_ps] @
                map (barrier_key ''worker'') [0..<nat num_workers], Some spec) \<and>
           (\<forall>r. spec r =
              (if r = ''worker'' \<and> 0 < num_workers then Some (map w [0..<nat num_workers])
               else if r = ''ps'' \<and> 0 < num_ps then Some (map p [0..<nat num_ps])
               else if r = ''chief'' then Some [c]
               else None))"
proof -
  from ps have ps': "\<forall>i \<in> set [0..<nat num_ps]. kv (barrier_key ''ps'' i) = Some (p i)"
    by simp
  from worker have worker': "\<forall>i \<in> set [0..<nat num_workers]. kv (barrier_key ''worker'' i) = Some (w i)"
    by simp
  from spec_kv_loop_all [OF ps', of "[''chief:0'']" "[''chief'' \<mapsto> [c]]"]
  obtain spec1 where run1: "spec_kv_loop kv ''ps'' [0..<nat num_ps] [''chief:0''] [''chief'' \<mapsto> [c]] =
        ([''chief:0''] @ map (barrier_key ''ps'') [0..<nat num_ps], Some spec1)"
    and at1: "\<And>r. spec1 r =
        (if r = ''ps'' \<and> [0..<nat num_ps] \<noteq> []
         then Some (map p [0..<nat num_ps])
         else [''chief'' \<mapsto> [c]] r)"
    by auto
  from spec_kv_loop_all [OF worker', of "[''chief:0''] @ map (barrier_key ''ps'') [0..<nat num_ps]" spec1]
  obtain spec2 where run2: "spec_kv_loop kv ''worker'' [0..<nat num_workers]
          ([''chief:0''] @ map (barrier_key ''ps'') [0..<nat num_ps]) spec1 =
        (([''chief:0''] @ map (barrier_key ''ps'') [0..<nat num_ps]) @
           map (barrier_key ''worker'') [0..<nat num_workers], Some spec2)"
    and at2: "\<And>r. spec2 r =
        (if r = ''worker'' \<and> [0..<nat num_workers] \<noteq> []
         then Some ((case spec1 ''worker'' of None \<Rightarrow> [] | Some vs \<Rightarrow> vs) @ map w [0..<nat num_workers])
         else spec1 r)"
    by auto
  have "spec_from_kv kv num_workers num_ps =
             (''chief:0'' # map (barrier_key ''ps'') [0..<nat num_ps] @
                map (barrier_key ''worker'') [0..<nat num_workers], Some spec2)"
    using run1 run2 by (simp add: spec_from_kv_def chief)
  moreover have "spec2 q =
              (if q = ''worker'' \<and> 0 < num_workers then Some (map w [0..<nat num_workers])
               else if q = ''ps'' \<and> 0 < num_ps then Some (map p [0..<nat num_ps])
               else if q = ''chief'' then Some [c]
               else None)" for q
    by (simp add: at2 at1)
  ultimately show ?thesis by blast
qed


lemma barrier_key_examples:
  "barrier_key ''ps'' 0 = ''ps:0''"
  "barrier_key ''worker'' 0 = ''worker:0''"
  "barrier_key ''worker'' (Suc 0) = ''worker:1''"
  by (simp_all add: barrier_key_def str_nat.simps digit_char_def)

text \<open>
  For every store, with or without the keys published, the keys that
  \<^verbatim>\<open>_spec_from_kv\<close> waits for are an initial part of \<^verbatim>\<open>chief:0\<close>, then
  \<^verbatim>\<open>ps:i\<close> in index order, then \<^verbatim>\<open>worker:i\<close> in index order; the part ends at the
  first key that is never published.
\<close>

lemma spec_kv_loop_waited:
  "prefix (fst (spec_kv_loop kv role idxs waited spec)) (waited @ map (barrier_key role) idxs)"
proof (induction idxs arbitrary: waited spec)
  case Nil
  show ?case by simp
next
  case (Cons idx idxs)
  show ?case
  proof (cases "kv (barrier_key role idx)")
    case None
    then show ?thesis by simp
  next
    case (Some v)
    from Cons.IH [of "waited @ [barrier_key role idx]" "setdefault_append spec role v"]
    show ?thesis by (simp add: Some)
  qed
qed

lemma spec_kv_loop_returned:
  "spec_kv_loop kv role idxs waited spec = (waited', Some spec') \<Longrightarrow>
   waited' = waited @ map (barrier_key role) idxs"
proof (induction idxs arbitrary: waited spec)
  case Nil
  then show ?case by simp
next
  case (Cons idx idxs)
  show ?case
  proof (cases "kv (barrier_key role idx)")
    case None
    with Cons.prems show ?thesis by simp
  next
    case (Some v)
    with Cons.prems
    have "spec_kv_loop kv role idxs (waited @ [barrier_key role idx])
            (setdefault_append spec role v) = (waited', Some spec')"
      by simp
    from Cons.IH [OF this] show ?thesis by simp
  qed
qed

lemma spec_from_kv_wait_order:
  "prefix (fst (spec_from_kv kv num_workers num_ps))
     (''chief:0'' # map (barrier_key ''ps'') [0..<nat num_ps] @
        map (barrier_key ''worker'') [0..<nat num_workers])"
proof (cases "kv ''chief:0''")
  case None
  then show ?thesis by (simp add: spec_from_kv_def)
next
  case (Some c)
  obtain waited res
    where ps: "spec_kv_loop kv ''ps'' [0..<nat num_ps] [''chief:0''] [''chief'' \<mapsto> [c]] =
                 (waited, res)"
    by (cases "spec_kv_loop kv ''ps'' [0..<nat num_ps] [''chief:0''] [''chief'' \<mapsto> [c]]")
  show ?thesis
  proof (cases res)
    case None
    from spec_kv_loop_waited [of kv "''ps''" "[0..<nat num_ps]" "[''chief:0'']" "[''chief'' \<mapsto> [c]]"]
    have "prefix waited (''chief:0'' # map (barrier_key ''ps'') [0..<nat num_ps])"
      by (simp add: ps)
    then have "prefix waited (''chief:0'' # map (barrier_key ''ps'') [0..<nat num_ps] @
        map (barrier_key ''worker'') [0..<nat num_workers])"
      using prefix_prefix [of waited "''chief:0'' # map (barrier_key ''ps'') [0..<nat num_ps]"]
      by simp
    then show ?thesis by (simp add: spec_from_kv_def Some ps None)
  next
    case (Some spec)
    from spec_kv_loop_returned [OF ps [unfolded Some]]
    have w: "waited = ''chief:0'' # map (barrier_key ''ps'') [0..<nat num_ps]" by simp
    from spec_kv_loop_waited [of kv "''worker''" "[0..<nat num_workers]" waited spec]
    show ?thesis
      by (simp add: spec_from_kv_def \<open>kv ''chief:0'' = Some c\<close> ps Some w)
  qed
qed

text \<open>When every key is published, it waits for all of them and returns.\<close>

lemma spec_from_kv_wait_order_published:
  assumes "kv ''chief:0'' = Some c"
    and "\<forall>i < nat num_ps. kv (barrier_key ''ps'' i) = Some (p i)"
    and "\<forall>i < nat num_workers. kv (barrier_key ''worker'' i) = Some (w i)"
  shows "fst (spec_from_kv kv num_workers num_ps) =
           ''chief:0'' # map (barrier_key ''ps'') [0..<nat num_ps] @
             map (barrier_key ''worker'') [0..<nat num_workers]"
  using spec_from_kv_result [OF assms] by auto

text \<open>
  C5. The claim gives both builders the order chief, parameter servers, workers, which
  is the order of \<^verbatim>\<open>_spec_from_kv\<close>. \<^verbatim>\<open>_spec_from_iter\<close> runs the loop of the
  workers first: of the items \<open>a\<close>, \<open>b\<close>, \<open>c\<close> with one worker and one parameter
  server, the second item \<open>b\<close> goes to the worker and the third item \<open>c\<close> to the
  parameter server, where the order of the claim gives \<open>b\<close> to the parameter server.
\<close>

theorem spec_from_iter_order_counterexample:
  "(case spec_from_iter [''a'', ''b'', ''c''] 1 1 of
      Inl e \<Rightarrow> []
    | Inr (spec, rest) \<Rightarrow> [spec ''chief'', spec ''ps'', spec ''worker'']) =
   [Some [''a''], Some [''c''], Some [''b'']]"
  by (simp add: spec_from_iter_def setdefault_append_def)

text \<open>
  C6. For all counts, an iterator with an item for every slot and a store with every key
  published: both builders return a spec with exactly one chief endpoint, and a role
  with a positive count has exactly that many endpoints, the one at position \<open>i\<close>
  being the value of the task of index \<open>i\<close> (the value published under
  \<^verbatim>\<open>role:i\<close>, or the item drawn for that task).
\<close>

theorem cluster_spec_endpoint_counts:
  assumes "1 + nat num_workers + nat num_ps \<le> length reserved"
    and "kv ''chief:0'' = Some c"
    and "\<forall>i < nat num_ps. kv (barrier_key ''ps'' i) = Some (p i)"
    and "\<forall>i < nat num_workers. kv (barrier_key ''worker'' i) = Some (w i)"
  shows "\<exists>spec rest waited spec'.
           spec_from_iter reserved num_workers num_ps = Inr (spec, rest) \<and>
           spec_from_kv kv num_workers num_ps = (waited, Some spec') \<and>
           spec ''chief'' = Some [reserved ! 0] \<and>
           spec' ''chief'' = Some [c] \<and>
           (0 < num_workers \<longrightarrow>
              (\<exists>ws ws'. spec ''worker'' = Some ws \<and> spec' ''worker'' = Some ws' \<and>
                 length ws = nat num_workers \<and> length ws' = nat num_workers \<and>
                 (\<forall>i < nat num_workers. ws ! i = reserved ! (1 + i) \<and> ws' ! i = w i))) \<and>
           (0 < num_ps \<longrightarrow>
              (\<exists>ps ps'. spec ''ps'' = Some ps \<and> spec' ''ps'' = Some ps' \<and>
                 length ps = nat num_ps \<and> length ps' = nat num_ps \<and>
                 (\<forall>i < nat num_ps. ps ! i = reserved ! (1 + nat num_workers + i) \<and>
                    ps' ! i = p i)))"
proof -
  from spec_from_iter_result [OF assms(1)]
  obtain spec where run: "spec_from_iter reserved num_workers num_ps =
              Inr (spec, drop (1 + nat num_workers + nat num_ps) reserved)"
    and at: "\<And>r. spec r =
              (if r = ''ps'' \<and> 0 < num_ps
               then Some (take (nat num_ps) (drop (1 + nat num_workers) reserved))
               else if r = ''worker'' \<and> 0 < num_workers
               then Some (take (nat num_workers) (drop 1 reserved))
               else if r = ''chief'' then Some [reserved ! 0]
               else None)"
    by blast
  from spec_from_kv_result [OF assms(2) assms(3) assms(4)]
  obtain waited spec' where run': "spec_from_kv kv num_workers num_ps = (waited, Some spec')"
    and at': "\<And>r. spec' r =
              (if r = ''worker'' \<and> 0 < num_workers then Some (map w [0..<nat num_workers])
               else if r = ''ps'' \<and> 0 < num_ps then Some (map p [0..<nat num_ps])
               else if r = ''chief'' then Some [c]
               else None)"
    by blast
  have chief: "spec ''chief'' = Some [reserved ! 0]" "spec' ''chief'' = Some [c]"
    by (simp_all add: at at')
  have worker: "\<exists>ws ws'. spec ''worker'' = Some ws \<and> spec' ''worker'' = Some ws' \<and>
                 length ws = nat num_workers \<and> length ws' = nat num_workers \<and>
                 (\<forall>i < nat num_workers. ws ! i = reserved ! (1 + i) \<and> ws' ! i = w i)"
    if "0 < num_workers"
    using that assms(1) by (simp add: at at')
  have ps: "\<exists>ps ps'. spec ''ps'' = Some ps \<and> spec' ''ps'' = Some ps' \<and>
                 length ps = nat num_ps \<and> length ps' = nat num_ps \<and>
                 (\<forall>i < nat num_ps. ps ! i = reserved ! (1 + nat num_workers + i) \<and>
                    ps' ! i = p i)"
    if "0 < num_ps"
    using that assms(1) by (simp add: at at' add.commute)
  from run run' chief worker ps show ?thesis by blast
qed

theorem cluster_spec_endpoint_counts_witness:
  "\<exists>spec rest waited spec'.
     spec_from_iter [''a'', ''b'', ''c'', ''d''] 2 1 = Inr (spec, rest) \<and>
     spec_from_kv [''chief:0'' \<mapsto> ''h0'', ''ps:0'' \<mapsto> ''h1'', ''worker:0'' \<mapsto> ''h2'',
                   ''worker:1'' \<mapsto> ''h3''] 2 1 = (waited, Some spec') \<and>
     spec ''chief'' = Some [''a''] \<and> spec' ''chief'' = Some [''h0''] \<and>
     (\<exists>ws ws'. spec ''worker'' = Some ws \<and> spec' ''worker'' = Some ws' \<and>
        length ws = 2 \<and> length ws' = 2 \<and>
        ws ! 0 = ''b'' \<and> ws ! 1 = ''c'' \<and> ws' ! 0 = ''h2'' \<and> ws' ! 1 = ''h3'') \<and>
     (\<exists>ps ps'. spec ''ps'' = Some ps \<and> spec' ''ps'' = Some ps' \<and>
        length ps = 1 \<and> length ps' = 1 \<and> ps ! 0 = ''d'' \<and> ps' ! 0 = ''h1'')"
  using cluster_spec_endpoint_counts [of 2 1 "[''a'', ''b'', ''c'', ''d'']"
      "[''chief:0'' \<mapsto> ''h0'', ''ps:0'' \<mapsto> ''h1'', ''worker:0'' \<mapsto> ''h2'', ''worker:1'' \<mapsto> ''h3'']"
      "''h0''" "\<lambda>i. ''h1''" "\<lambda>i. if i = 0 then ''h2'' else ''h3''"]
  by (simp add: barrier_key_examples All_less_Suc numeral_2_eq_2) blast

text \<open>
  C10. Under the same conditions the keys of the spec that either builder returns are
  \<^verbatim>\<open>chief\<close> and the roles with a positive count: a role with the count 0 is no key
  of the dictionary.
\<close>

theorem cluster_spec_keys:
  assumes "1 + nat num_workers + nat num_ps \<le> length reserved"
    and "kv ''chief:0'' = Some c"
    and "\<forall>i < nat num_ps. kv (barrier_key ''ps'' i) = Some (p i)"
    and "\<forall>i < nat num_workers. kv (barrier_key ''worker'' i) = Some (w i)"
  shows "\<exists>spec rest waited spec'.
           spec_from_iter reserved num_workers num_ps = Inr (spec, rest) \<and>
           spec_from_kv kv num_workers num_ps = (waited, Some spec') \<and>
           dom spec = {''chief''} \<union> (if 0 < num_workers then {''worker''} else {}) \<union>
                        (if 0 < num_ps then {''ps''} else {}) \<and>
           dom spec' = dom spec"
proof -
  from spec_from_iter_result [OF assms(1)]
  obtain spec where run: "spec_from_iter reserved num_workers num_ps =
              Inr (spec, drop (1 + nat num_workers + nat num_ps) reserved)"
    and at: "\<And>r. spec r =
              (if r = ''ps'' \<and> 0 < num_ps
               then Some (take (nat num_ps) (drop (1 + nat num_workers) reserved))
               else if r = ''worker'' \<and> 0 < num_workers
               then Some (take (nat num_workers) (drop 1 reserved))
               else if r = ''chief'' then Some [reserved ! 0]
               else None)"
    by blast
  from spec_from_kv_result [OF assms(2) assms(3) assms(4)]
  obtain waited spec' where run': "spec_from_kv kv num_workers num_ps = (waited, Some spec')"
    and at': "\<And>r. spec' r =
              (if r = ''worker'' \<and> 0 < num_workers then Some (map w [0..<nat num_workers])
               else if r = ''ps'' \<and> 0 < num_ps then Some (map p [0..<nat num_ps])
               else if r = ''chief'' then Some [c]
               else None)"
    by blast
  have d: "dom spec = {''chief''} \<union> (if 0 < num_workers then {''worker''} else {}) \<union>
                        (if 0 < num_ps then {''ps''} else {})"
    unfolding dom_def by (auto simp: at split: if_splits)
  have d': "dom spec' = {''chief''} \<union> (if 0 < num_workers then {''worker''} else {}) \<union>
                        (if 0 < num_ps then {''ps''} else {})"
    unfolding dom_def by (auto simp: at' split: if_splits)
  from run run' d d' show ?thesis by (metis (no_types))
qed


theorem cluster_spec_keys_witness:
  "\<exists>spec rest waited spec'.
     spec_from_iter [''a'', ''b''] 1 0 = Inr (spec, rest) \<and>
     spec_from_kv [''chief:0'' \<mapsto> ''h0'', ''worker:0'' \<mapsto> ''h1''] 1 0 = (waited, Some spec') \<and>
     dom spec = {''chief'', ''worker''} \<and> dom spec' = dom spec"
  using cluster_spec_keys [of 1 0 "[''a'', ''b'']"
      "[''chief:0'' \<mapsto> ''h0'', ''worker:0'' \<mapsto> ''h1'']" "''h0''" "\<lambda>i. ''none''" "\<lambda>i. ''h1''"]
  by (simp add: barrier_key_examples insert_commute)


section \<open>Properties of \<^verbatim>\<open>iter_available_sock_addrs\<close>\<close>

text \<open>Two numbers with the same decimal numeral are equal.\<close>

lemma digit_char_inj: "a < 10 \<Longrightarrow> b < 10 \<Longrightarrow> digit_char a = digit_char b \<Longrightarrow> a = b"
proof -
  have d: "distinct ''0123456789''" by simp
  show "a < 10 \<Longrightarrow> b < 10 \<Longrightarrow> digit_char a = digit_char b \<Longrightarrow> a = b"
    unfolding digit_char_def using d by (simp add: nth_eq_iff_index_eq)
qed

lemma str_nat_nonempty: "str_nat n \<noteq> []"
  by (subst str_nat.simps) simp

lemma str_nat_inj: "str_nat a = str_nat b \<Longrightarrow> a = b"
proof (induction a arbitrary: b rule: less_induct)
  case (less a)
  show ?case
  proof (cases "a < 10")
    case a: True
    show ?thesis
    proof (cases "b < 10")
      case True
      with a less.prems show ?thesis
        by (simp add: str_nat.simps [of a] str_nat.simps [of b] digit_char_inj)
    next
      case False
      with a less.prems str_nat_nonempty [of "b div 10"] show ?thesis
        by (simp add: str_nat.simps [of a] str_nat.simps [of b] Cons_eq_append_conv)
    qed
  next
    case a: False
    show ?thesis
    proof (cases "b < 10")
      case True
      with a less.prems str_nat_nonempty [of "a div 10"] show ?thesis
        by (simp add: str_nat.simps [of a] str_nat.simps [of b] append_eq_Cons_conv)
    next
      case False
      with a less.prems have eq: "str_nat (a div 10) = str_nat (b div 10)"
        and dig: "digit_char (a mod 10) = digit_char (b mod 10)"
        by (simp_all add: str_nat.simps [of a] str_nat.simps [of b])
      from a have "a div 10 < a" by simp
      from less.IH [OF this eq] have "a div 10 = b div 10" .
      moreover from dig have "a mod 10 = b mod 10"
        by (simp add: digit_char_inj)
      ultimately show ?thesis by (metis div_mult_mod_eq)
    qed
  qed
qed

lemma bound_ports_push:
  "bound_ports \<lparr>held = None # held g, attempts = k\<rparr> = bound_ports g"
  "bound_ports \<lparr>held = Some p # held g, attempts = k\<rparr> = p # bound_ports g"
  by (simp_all add: bound_ports_def List.map_filter_def)

lemma iter_available_sock_addrs_fresh:
  "os_fresh os \<Longrightarrow> iter_available_sock_addrs os host fuel g = Some (Inr addr, g') \<Longrightarrow>
   \<exists>port. addr = host @ '':'' @ str_nat port \<and> port \<notin> set (bound_ports g) \<and>
     bound_ports g' = port # bound_ports g"
proof (induction fuel arbitrary: g)
  case 0
  then show ?case by simp
next
  case (Suc fuel)
  show ?case
  proof (cases "os (bound_ports g) (attempts g)")
    case (Bound port)
    with Suc.prems(1) have "port \<notin> set (bound_ports g)"
      by (auto simp: os_fresh_def)
    with Suc.prems(2) Bound show ?thesis
      by (auto simp: bound_ports_push)
  next
    case (BindError e)
    show ?thesis
    proof (cases "e = EADDRINUSE")
      case True
      with Suc.prems(2) BindError
      have "iter_available_sock_addrs os host fuel
              \<lparr>held = None # held g, attempts = Suc (attempts g)\<rparr> = Some (Inr addr, g')"
        by simp
      from Suc.IH [OF Suc.prems(1) this] show ?thesis
        by (simp add: bound_ports_push)
    next
      case False
      with Suc.prems(2) BindError show ?thesis by simp
    qed
  qed
qed

lemma draw_sock_addrs_ports:
  "os_fresh os \<Longrightarrow> draw_sock_addrs os host fuel n g = Some (Inr addrs, g') \<Longrightarrow>
   \<exists>ports. addrs = map (\<lambda>p. host @ '':'' @ str_nat p) ports \<and> length ports = n \<and>
     distinct ports \<and> set ports \<inter> set (bound_ports g) = {} \<and>
     set (bound_ports g') = set ports \<union> set (bound_ports g)"
proof (induction n arbitrary: g addrs)
  case 0
  then show ?case by simp
next
  case (Suc n)
  from Suc.prems(2) obtain addr g1 rest
    where first: "iter_available_sock_addrs os host fuel g = Some (Inr addr, g1)"
      and more: "draw_sock_addrs os host fuel n g1 = Some (Inr rest, g')"
      and addrs: "addrs = addr # rest"
    by (auto split: option.splits sum.splits prod.splits)
  from iter_available_sock_addrs_fresh [OF Suc.prems(1) first]
  obtain port where port: "addr = host @ '':'' @ str_nat port" "port \<notin> set (bound_ports g)"
      "bound_ports g1 = port # bound_ports g"
    by blast
  from Suc.IH [OF Suc.prems(1) more]
  obtain ports where ports: "rest = map (\<lambda>p. host @ '':'' @ str_nat p) ports" "length ports = n"
      "distinct ports" "set ports \<inter> set (bound_ports g1) = {}"
      "set (bound_ports g') = set ports \<union> set (bound_ports g1)"
    by blast
  have "addrs = map (\<lambda>p. host @ '':'' @ str_nat p) (port # ports)"
    by (simp add: addrs port ports)
  moreover have "length (port # ports) = Suc n" by (simp add: ports)
  moreover have "distinct (port # ports)" using ports port by auto
  moreover have "set (port # ports) \<inter> set (bound_ports g) = {}" using ports port by auto
  moreover have "set (bound_ports g') = set (port # ports) \<union> set (bound_ports g)"
    using ports port by auto
  ultimately show ?case by blast
qed

lemma draw_sock_addrs_distinct:
  assumes "os_fresh os" and "draw_sock_addrs os host fuel n g = Some (Inr addrs, g')"
  shows "length addrs = n \<and> distinct addrs"
proof -
  from draw_sock_addrs_ports [OF assms]
  obtain ports where ports: "addrs = map (\<lambda>p. host @ '':'' @ str_nat p) ports"
      "length ports = n" "distinct ports"
    by blast
  have "inj_on (\<lambda>p. host @ '':'' @ str_nat p) (set ports)"
    by (rule inj_onI) (simp add: str_nat_inj)
  with ports show ?thesis by (simp add: distinct_map)
qed

lemma iter_available_sock_addrs_retry:
  "\<forall>j < k. os (bound_ports g) (attempts g + j) = BindError EADDRINUSE \<Longrightarrow> k < fuel \<Longrightarrow>
   iter_available_sock_addrs os host fuel g =
   iter_available_sock_addrs os host (fuel - k)
     \<lparr>held = replicate k None @ held g, attempts = attempts g + k\<rparr>"
proof (induction k arbitrary: g fuel)
  case 0
  then show ?case by (cases g) simp
next
  case (Suc k)
  from Suc.prems(2) obtain fuel' where fuel: "fuel = Suc fuel'" and k: "k < fuel'"
    by (cases fuel) auto
  from Suc.prems(1) have now: "os (bound_ports g) (attempts g) = BindError EADDRINUSE"
    by force
  let ?g = "\<lparr>held = None # held g, attempts = Suc (attempts g)\<rparr>"
  have "\<forall>j < k. os (bound_ports ?g) (attempts ?g + j) = BindError EADDRINUSE"
    using Suc.prems(1) by (auto simp: bound_ports_push)
  from Suc.IH [OF this k]
  have "iter_available_sock_addrs os host fuel' ?g =
        iter_available_sock_addrs os host (fuel' - k)
          \<lparr>held = replicate k None @ None # held g, attempts = Suc (attempts g) + k\<rparr>"
    by simp
  then show ?case
    by (simp add: fuel now replicate_app_Cons_same)
qed

lemma bound_ports_replicate:
  "bound_ports \<lparr>held = replicate k None @ held g, attempts = a\<rparr> = bound_ports g"
  by (induction k) (simp_all add: bound_ports_def List.map_filter_def)


lemma example_os_fresh: "os_fresh example_os"
  unfolding os_fresh_def example_os_def
  using member_le_sum_list by (fastforce split: if_splits)

text \<open>
  C9. With an operating system that never gives out a port held by an open socket: the
  \<open>n\<close> addresses drawn from one generator are pairwise distinct, since the generator
  keeps every socket open. \<^verbatim>\<open>bind\<close> calls that fail with \<^verbatim>\<open>EADDRINUSE\<close> are
  retried without a trace in the result: after \<open>k\<close> of them the next answer of the
  operating system decides, a port being yielded and any other error being raised to
  the caller of \<^verbatim>\<open>next()\<close>, with every socket closed.
\<close>

theorem sock_addrs_distinct:
  assumes "os_fresh os"
  shows "(draw_sock_addrs os host fuel n g = Some (Inr addrs, g') \<longrightarrow>
            length addrs = n \<and> distinct addrs) \<and>
         ((\<forall>j < k. os (bound_ports g) (attempts g + j) = BindError EADDRINUSE) \<and> k < fuel \<longrightarrow>
            (\<forall>port. os (bound_ports g) (attempts g + k) = Bound port \<longrightarrow>
               (\<exists>g1. iter_available_sock_addrs os host fuel g =
                  Some (Inr (host @ '':'' @ str_nat port), g1))) \<and>
            (\<forall>e. os (bound_ports g) (attempts g + k) = BindError e \<and> e \<noteq> EADDRINUSE \<longrightarrow>
               (\<exists>g1. iter_available_sock_addrs os host fuel g = Some (Inl (OSError e), g1) \<and>
                  held g1 = [])))"
proof (intro conjI impI allI)
  assume "draw_sock_addrs os host fuel n g = Some (Inr addrs, g')"
  from draw_sock_addrs_distinct [OF assms this]
  show "length addrs = n" and "distinct addrs" by simp_all
next
  fix port
  assume retry: "(\<forall>j < k. os (bound_ports g) (attempts g + j) = BindError EADDRINUSE) \<and> k < fuel"
    and last: "os (bound_ports g) (attempts g + k) = Bound port"
  from retry obtain fuel' where fuel: "fuel - k = Suc fuel'"
    by (cases "fuel - k") auto
  from retry have "iter_available_sock_addrs os host fuel g =
      iter_available_sock_addrs os host (fuel - k)
        \<lparr>held = replicate k None @ held g, attempts = attempts g + k\<rparr>"
    by (intro iter_available_sock_addrs_retry) simp_all
  with last show "\<exists>g1. iter_available_sock_addrs os host fuel g =
      Some (Inr (host @ '':'' @ str_nat port), g1)"
    by (simp add: fuel bound_ports_replicate)
next
  fix e
  assume retry: "(\<forall>j < k. os (bound_ports g) (attempts g + j) = BindError EADDRINUSE) \<and> k < fuel"
    and last: "os (bound_ports g) (attempts g + k) = BindError e \<and> e \<noteq> EADDRINUSE"
  from retry obtain fuel' where fuel: "fuel - k = Suc fuel'"
    by (cases "fuel - k") auto
  from retry have "iter_available_sock_addrs os host fuel g =
      iter_available_sock_addrs os host (fuel - k)
        \<lparr>held = replicate k None @ held g, attempts = attempts g + k\<rparr>"
    by (intro iter_available_sock_addrs_retry) simp_all
  with last show "\<exists>g1. iter_available_sock_addrs os host fuel g = Some (Inl (OSError e), g1) \<and>
      held g1 = []"
    by (simp add: fuel bound_ports_replicate)
qed

theorem sock_addrs_distinct_witness:
  "os_fresh example_os \<and>
   draw_sock_addrs example_os ''node1'' 2 2 sock_gen_init =
     Some (Inr [''node1:1024'', ''node1:2048''],
           \<lparr>held = [Some 2048, None, Some 1024, None], attempts = 4\<rparr>) \<and>
   distinct [''node1:1024'', ''node1:2048'']"
proof -
  have run: "draw_sock_addrs example_os ''node1'' 2 2 sock_gen_init =
     Some (Inr [''node1:1024'', ''node1:2048''],
           \<lparr>held = [Some 2048, None, Some 1024, None], attempts = 4\<rparr>)"
  proof -
    have two: "draw_sock_addrs os host 2 2 g = draw_sock_addrs os host (Suc (Suc 0)) (Suc (Suc 0)) g"
      for os host g
      by (simp add: numeral_2_eq_2)
    show ?thesis
      unfolding two
      by (simp add: example_os_def sock_gen_init_def bound_ports_def
          List.map_filter_def str_nat.simps digit_char_def)
  qed
  from sock_addrs_distinct [OF example_os_fresh, of "''node1''" 2 2 sock_gen_init
      "[''node1:1024'', ''node1:2048'']"
      "\<lparr>held = [Some 2048, None, Some 1024, None], attempts = 4\<rparr>" 0] run
  have "distinct [''node1:1024'', ''node1:2048'']" by blast
  with example_os_fresh run show ?thesis by blast
qed


section \<open>Properties of \<^verbatim>\<open>_shutdown\<close>\<close>

text \<open>
  When no frame of the caller is handling an exception, the label follows how the body
  ended; an exception of the body decides the label in every case. A
  \<^verbatim>\<open>ConnectionError\<close> of \<^verbatim>\<open>app.shutdown\<close> is swallowed and any other exception
  of it takes the place of the result of the body.
\<close>

lemma shutdown_scope_no_handler:
  "shutdown_scope None res body =
     ([Shutdown (case body of
                   Inl e \<Rightarrow> if e = KeyboardInterrupt \<or> e = SystemExit then ''KILLED'' else ''FAILED''
                 | Inr v \<Rightarrow> ''SUCCEEDED'')],
      (case res of
         None \<Rightarrow> body
       | Some e \<Rightarrow> if e = ConnectionError then body else Inl e))"
  by (cases body; cases res) (simp_all add: shutdown_scope_def shutdown_status_def)

lemma shutdown_scope_raised:
  "shutdown_scope handled res (Inl e) =
     ([Shutdown (if e = KeyboardInterrupt \<or> e = SystemExit then ''KILLED'' else ''FAILED'')],
      (case res of
         None \<Rightarrow> Inl e
       | Some e' \<Rightarrow> if e' = ConnectionError then Inl e else Inl e'))"
  by (simp add: shutdown_scope_def shutdown_status_def)

text \<open>
  C3. The claim: leaving the scope by normal fall-through yields the label
  \<^verbatim>\<open>SUCCEEDED\<close>. The \<^verbatim>\<open>finally\<close> block classifies \<^verbatim>\<open>sys.exc_info()\<close>, which
  is also set while a frame of the caller is handling an exception: when the monitoring
  runs inside an \<^verbatim>\<open>except ValueError:\<close> clause of the caller, the manager reports
  \<^verbatim>\<open>SUCCEEDED\<close>, the body falls through, and the job is shut down with the label
  \<^verbatim>\<open>FAILED\<close>.
\<close>

theorem shutdown_fallthrough_inside_handler:
  "await_termination (Some (ValueError ''earlier''))
     \<lparr>client_res = None, submit_res = Inr ''app_1'', connect_res = None,
      polls = [Polled SUCCEEDED []], shutdown_res = None\<rparr> ''app_1'' 10 =
   Some (Inr (SUCCEEDED, Map.empty),
         [Connect ''app_1'', Sleep 10, Report ''app_1'', GetContainers, Shutdown ''FAILED''],
         [])"
  by (simp add: await_termination_def shutdown_scope_def shutdown_status_def)

text \<open>An interrupt during the monitoring shuts the job down with \<^verbatim>\<open>KILLED\<close>.\<close>

lemma interrupt_during_monitor:
  "await_termination handled
     \<lparr>client_res = None, submit_res = Inr ''app_1'', connect_res = None,
      polls = [Polled UNDEFINED [], SleepRaises KeyboardInterrupt], shutdown_res = None\<rparr>
     ''app_1'' 10 =
   Some (Inl KeyboardInterrupt,
         [Connect ''app_1'', Sleep 10, Report ''app_1'', GetContainers, Sleep 10,
          Shutdown ''KILLED''],
         [])"
  by (simp add: await_termination_def shutdown_scope_def shutdown_status_def
      except_ConnectionError_def)

section \<open>Properties of \<^verbatim>\<open>YARNCluster.run\<close>\<close>

lemma map_of_append_other:
  "k \<noteq> k' \<Longrightarrow> map_of (d @ [(k', v)]) k = map_of d k"
  by (induction d) auto

lemma chief_after_evaluator:
  "fst (defaultdict_get (snd (defaultdict_get task_specs ''evaluator'')) ''chief'') =
   fst (defaultdict_get task_specs ''chief'')"
  by (auto simp: defaultdict_get_def map_of_append_other split: option.splits)

text \<open>
  C4. When the instance count of \<^verbatim>\<open>chief\<close> is not 1 (the count of a missing
  \<^verbatim>\<open>chief\<close> is that of \<^verbatim>\<open>TaskSpec.NONE\<close>, 0), or a key of \<^verbatim>\<open>task_specs\<close> is no
  task type, \<^verbatim>\<open>run\<close> raises \<^verbatim>\<open>ValueError\<close> or \<^verbatim>\<open>AssertionError\<close> and has made
  no call to the manager.
\<close>

theorem run_validates_before_manager:
  assumes "instances (task_spec_fields (fst (defaultdict_get task_specs ''chief''))) \<noteq> 1 \<or>
           \<not> set (map fst task_specs) \<subseteq> all_task_types"
  shows "\<exists>e. run handled m local_res node_label_fn queue task_specs = Some (Some e, []) \<and>
           (e = AssertionError \<or> e = ValueError ''task_spec keys must be a subset of: '')"
proof (cases "set (map fst task_specs) \<subseteq> all_task_types")
  case False
  then show ?thesis by (simp add: run_def run_validate_def)
next
  case True
  with assms have chief: "instances (task_spec_fields (fst (defaultdict_get task_specs ''chief''))) \<noteq> 1"
    by simp
  obtain evaluator d1 where ev: "defaultdict_get task_specs ''evaluator'' = (evaluator, d1)"
    by (cases "defaultdict_get task_specs ''evaluator''")
  obtain ch d2 where ch: "defaultdict_get d1 ''chief'' = (ch, d2)"
    by (cases "defaultdict_get d1 ''chief''")
  from chief_after_evaluator [of task_specs] ev ch
  have "ch = fst (defaultdict_get task_specs ''chief'')" by simp
  with chief have "instances (task_spec_fields ch) \<noteq> 1" by simp
  then have "run_validate task_specs = Inl AssertionError"
    using True by (simp add: run_validate_def ev ch)
  then show ?thesis by (simp add: run_def)
qed

theorem run_validates_before_manager_witness:
  "run None
     \<lparr>client_res = None, submit_res = Inr ''app_1'', connect_res = None,
      polls = [Polled SUCCEEDED []], shutdown_res = None\<rparr>
     None (\<lambda>f. ''label'') ''default''
     [(''chief'', Task \<lparr>memory = 1024, vcores = 1, instances = 2, flavor = CPU\<rparr>),
      (''tester'', Task \<lparr>memory = 1024, vcores = 1, instances = 1, flavor = CPU\<rparr>)] =
   Some (Some (ValueError ''task_spec keys must be a subset of: ''), []) \<and>
   run None
     \<lparr>client_res = None, submit_res = Inr ''app_1'', connect_res = None,
      polls = [Polled SUCCEEDED []], shutdown_res = None\<rparr>
     None (\<lambda>f. ''label'') ''default''
     [(''chief'', Task \<lparr>memory = 1024, vcores = 1, instances = 2, flavor = CPU\<rparr>)] =
   Some (Some AssertionError, [])"
proof -
  let ?m = "\<lparr>client_res = None, submit_res = Inr ''app_1'', connect_res = None,
      polls = [Polled SUCCEEDED []], shutdown_res = None\<rparr>"
  let ?bad = "[(''chief'', Task \<lparr>memory = 1024, vcores = 1, instances = 2, flavor = CPU\<rparr>)]"
  have "instances (task_spec_fields (fst (defaultdict_get ?bad ''chief''))) \<noteq> 1 \<or>
        \<not> set (map fst ?bad) \<subseteq> all_task_types"
    by (simp add: defaultdict_get_def)
  from run_validates_before_manager [OF this, of None ?m None "\<lambda>f. ''label''" "''default''"]
  have "run None ?m None (\<lambda>f. ''label'') ''default'' ?bad = Some (Some AssertionError, []) \<or>
        run None ?m None (\<lambda>f. ''label'') ''default'' ?bad =
          Some (Some (ValueError ''task_spec keys must be a subset of: ''), [])"
    by auto
  moreover have "run None ?m None (\<lambda>f. ''label'') ''default'' ?bad \<noteq>
          Some (Some (ValueError ''task_spec keys must be a subset of: ''), [])"
    by (simp add: run_def run_validate_def all_task_types_def defaultdict_get_def)
  ultimately show ?thesis
    by (simp add: run_def run_validate_def all_task_types_def)
qed

text \<open>A spec that passes the checks is submitted and monitored.\<close>

lemma run_valid_spec_submits:
  "run None
     \<lparr>client_res = None, submit_res = Inr ''app_1'', connect_res = None,
      polls = [Polled SUCCEEDED []], shutdown_res = None\<rparr>
     None (\<lambda>f. ''label'') ''default''
     [(''chief'', Task \<lparr>memory = 1024, vcores = 1, instances = 1, flavor = CPU\<rparr>)] =
   Some (None,
     [ClientOpen,
      Submit [(''chief'', \<lparr>command_env = CPU, command_num_ps = 0, command_num_workers = 0,
                 resources = (1024, 1), service_instances = 1, node_label = ''label''\<rparr>)]
        ''default'',
      Connect ''app_1'', Sleep 10, Report ''app_1'', GetContainers, Shutdown ''SUCCEEDED''])"
  by (simp add: run_def run_validate_def all_task_types_def defaultdict_get_def
      await_termination_def shutdown_scope_def shutdown_status_def)


section \<open>Properties of \<^verbatim>\<open>_await_termination\<close>\<close>











section \<open>Properties of \<^verbatim>\<open>encode_fn\<close> and \<^verbatim>\<open>decode_fn\<close>\<close>

text \<open>Every digit has its place in the alphabet, and the padding is no digit.\<close>

lemma index_of_nth:
  "distinct xs \<Longrightarrow> i < length xs \<Longrightarrow> index_of (xs ! i) xs = Some i"
proof (induction xs arbitrary: i)
  case Nil
  then show ?case by simp
next
  case (Cons x xs)
  show ?case
  proof (cases i)
    case 0
    then show ?thesis by simp
  next
    case (Suc j)
    with Cons.prems have "xs ! j \<in> set xs" "x \<notin> set xs" by simp_all
    then have "xs ! j \<noteq> x" by auto
    with Cons Suc show ?thesis by simp
  qed
qed

lemma b64alphabet_length: "length b64alphabet = 64"
  by (simp add: b64alphabet_def)

lemma b64alphabet_distinct: "distinct b64alphabet"
  by (simp add: b64alphabet_def)

lemma b64alphabet_no_pad: "CHR ''='' \<notin> set b64alphabet"
  by (simp add: b64alphabet_def)

lemma b64index_b64char: "i < 64 \<Longrightarrow> b64index (b64char i) = Some i"
  by (simp add: b64index_def b64char_def index_of_nth b64alphabet_distinct b64alphabet_length)

lemma b64char_in_alphabet: "i < 64 \<Longrightarrow> b64char i \<in> set b64alphabet"
  by (simp add: b64char_def b64alphabet_length)

lemma b64char_no_pad: "i < 64 \<Longrightarrow> b64char i \<noteq> CHR ''=''"
  using b64char_in_alphabet b64alphabet_no_pad by metis

lemma byte_bound: "unat (a :: byte) < 256"
  using unsigned_less [of a, where ?'a = nat] by simp

text \<open>The four digits of a group carry the 24 bits of its three bytes.\<close>

lemma b64_regroup1:
  "n div 262144 * 64 + n div 4096 mod 64 = (n::nat) div 4096"
proof -
  have "n div 262144 = n div 4096 div 64"
    by (simp add: div_mult2_eq [symmetric])
  then show ?thesis by simp
qed

lemma b64_regroup2:
  "(n div 262144 * 64 + n div 4096 mod 64) * 64 + n div 64 mod 64 = (n::nat) div 64"
proof -
  have e: "n div 4096 = n div 64 div 64"
    by (simp add: div_mult2_eq [symmetric])
  have "(n div 262144 * 64 + n div 4096 mod 64) * 64 + n div 64 mod 64 =
        n div 4096 * 64 + n div 64 mod 64"
    by (simp only: b64_regroup1)
  also have "\<dots> = n div 64 div 64 * 64 + n div 64 mod 64"
    by (simp only: e)
  also have "\<dots> = n div 64"
    by (simp only: div_mult_mod_eq)
  finally show ?thesis .
qed

lemma b64_regroup:
  "((n div 262144 * 64 + n div 4096 mod 64) * 64 + n div 64 mod 64) * 64 + n mod 64 = (n::nat)"
  by (simp only: b64_regroup2 div_mult_mod_eq)

lemma split_high:
  fixes A r :: nat
  assumes "r < k"
  shows "(A * k + r) div k = A" and "(A * k + r) mod k = r"
  using assms by simp_all

lemma b64_three_bytes:
  fixes A B C :: nat
  assumes "A < 256" "B < 256" "C < 256"
  shows "(A * 65536 + B * 256 + C) div 262144 < 64"
    and "(A * 65536 + B * 256 + C) div 65536 = A"
    and "(A * 65536 + B * 256 + C) div 256 mod 256 = B"
    and "(A * 65536 + B * 256 + C) mod 256 = C"
proof -
  have low: "B * 256 + C < 65536" using assms by simp
  have "(A * 65536 + B * 256 + C) < 64 * 262144" using assms by simp
  then show "(A * 65536 + B * 256 + C) div 262144 < 64"
    by (rule less_mult_imp_div_less)
  have e1: "A * 65536 + B * 256 + C = A * 65536 + (B * 256 + C)" by simp
  show "(A * 65536 + B * 256 + C) div 65536 = A"
    unfolding e1 using low by (rule split_high)
  have e2: "A * 65536 + B * 256 + C = (A * 256 + B) * 256 + C" by simp
  have d: "(A * 65536 + B * 256 + C) div 256 = A * 256 + B"
    unfolding e2 using assms(3) by (rule split_high)
  show "(A * 65536 + B * 256 + C) mod 256 = C"
    unfolding e2 using assms(3) by (rule split_high)
  show "(A * 65536 + B * 256 + C) div 256 mod 256 = B"
    unfolding d using assms(2) by (rule split_high)
qed

lemma b64_two_bytes:
  fixes A B :: nat
  assumes "A < 256" "B < 256"
  shows "(A * 65536 + B * 256) div 262144 < 64"
    and "(A * 65536 + B * 256) div 64 div 1024 = A"
    and "(A * 65536 + B * 256) div 64 div 4 mod 256 = B"
proof -
  have "(A * 65536 + B * 256) < 64 * 262144" using assms by simp
  then show "(A * 65536 + B * 256) div 262144 < 64"
    by (rule less_mult_imp_div_less)
  have e: "A * 65536 + B * 256 = (A * 1024 + B * 4) * 64 + 0" by simp
  have d: "(A * 65536 + B * 256) div 64 = A * 1024 + B * 4"
    unfolding e by (rule split_high) simp
  have low: "B * 4 < 1024" using assms by simp
  show "(A * 65536 + B * 256) div 64 div 1024 = A"
    unfolding d using low by (rule split_high)
  have e2: "A * 1024 + B * 4 = (A * 256 + B) * 4 + 0" by simp
  have d2: "(A * 1024 + B * 4) div 4 = A * 256 + B"
    unfolding e2 by (rule split_high) simp
  show "(A * 65536 + B * 256) div 64 div 4 mod 256 = B"
    unfolding d d2 using assms(2) by (rule split_high)
qed

lemma b64_one_byte:
  fixes A :: nat
  assumes "A < 256"
  shows "(A * 65536) div 262144 < 64"
    and "(A * 65536) div 4096 div 16 = A"
proof -
  have "A * 65536 < 64 * 262144" using assms by simp
  then show "(A * 65536) div 262144 < 64"
    by (rule less_mult_imp_div_less)
  have e: "A * 65536 = (A * 16) * 4096 + 0" by simp
  have d: "(A * 65536) div 4096 = A * 16"
    unfolding e by (rule split_high) simp
  have e2: "A * 16 = A * 16 + 0" by simp
  show "(A * 65536) div 4096 div 16 = A"
    unfolding d by simp
qed


text \<open>Decoding gives back the bytes that were encoded, and the text is made of the alphabet and the padding.\<close>

lemma b64decode_b64encode: "b64decode (b64encode bs) = Inr bs"
proof (induction bs rule: b64encode.induct)
  case 1
  show ?case by simp
next
  case (2 a)
  define n where "n = unat a * 65536"
  define i1 where "i1 = n div 262144"
  define i2 where "i2 = n div 4096 mod 64"
  have enc: "b64encode [a] = [b64char i1, b64char i2, CHR ''='', CHR ''='']"
    by (simp add: Let_def n_def i1_def i2_def)
  have bounds: "i1 < 64" "i2 < 64"
    using b64_one_byte(1) [OF byte_bound [of a]] by (simp_all add: i1_def i2_def n_def)
  have joined: "(i1 * 64 + i2) div 16 = unat a"
    unfolding i1_def i2_def b64_regroup1 n_def
    by (rule b64_one_byte(2) [OF byte_bound])
  show ?case
    unfolding enc
    by (simp add: b64index_b64char bounds joined del: distrib_right_numeral distrib_left_numeral)
next
  case (3 a b)
  define n where "n = unat a * 65536 + unat b * 256"
  define i1 where "i1 = n div 262144"
  define i2 where "i2 = n div 4096 mod 64"
  define i3 where "i3 = n div 64 mod 64"
  have enc: "b64encode [a, b] = [b64char i1, b64char i2, b64char i3, CHR ''='']"
    by (simp add: Let_def n_def i1_def i2_def i3_def)
  have bounds: "i1 < 64" "i2 < 64" "i3 < 64"
    using b64_two_bytes(1) [OF byte_bound [of a] byte_bound [of b]]
    by (simp_all add: i1_def i2_def i3_def n_def)
  have joined: "(i1 * 64 + i2) * 64 + i3 = n div 64"
    unfolding i1_def i2_def i3_def by (rule b64_regroup2)
  have bytes: "n div 64 div 1024 = unat a" "n div 64 div 4 mod 256 = unat b"
    unfolding n_def by (rule b64_two_bytes [OF byte_bound byte_bound])+
  show ?case
    unfolding enc
    by (simp add: b64index_b64char bounds joined bytes b64char_no_pad Let_def
        del: distrib_right_numeral distrib_left_numeral)
next
  case (4 a b c bs)
  define n where "n = unat a * 65536 + unat b * 256 + unat c"
  define i1 where "i1 = n div 262144"
  define i2 where "i2 = n div 4096 mod 64"
  define i3 where "i3 = n div 64 mod 64"
  define i4 where "i4 = n mod 64"
  have enc: "b64encode (a # b # c # bs) =
      b64char i1 # b64char i2 # b64char i3 # b64char i4 # b64encode bs"
    by (simp add: Let_def n_def i1_def i2_def i3_def i4_def)
  have bounds: "i1 < 64" "i2 < 64" "i3 < 64" "i4 < 64"
    using b64_three_bytes(1) [OF byte_bound [of a] byte_bound [of b] byte_bound [of c]]
    by (simp_all add: i1_def i2_def i3_def i4_def n_def)
  have joined: "((i1 * 64 + i2) * 64 + i3) * 64 + i4 = n"
    unfolding i1_def i2_def i3_def i4_def by (rule b64_regroup)
  have bytes: "n div 65536 = unat a" "n div 256 mod 256 = unat b" "n mod 256 = unat c"
    unfolding n_def by (rule b64_three_bytes [OF byte_bound byte_bound byte_bound])+
  show ?case
    unfolding enc
    by (simp add: b64index_b64char bounds joined bytes b64char_no_pad Let_def "4.IH"
        del: distrib_right_numeral distrib_left_numeral)
qed

lemma b64encode_text: "set (b64encode bs) \<subseteq> b64_text"
proof (induction bs rule: b64encode.induct)
  case 1
  show ?case by simp
next
  case (2 a)
  have "(unat a * 65536) div 262144 < 64"
    by (rule b64_one_byte(1) [OF byte_bound])
  then show ?case
    by (simp add: Let_def b64_text_def b64char_in_alphabet)
next
  case (3 a b)
  have "(unat a * 65536 + unat b * 256) div 262144 < 64"
    by (rule b64_two_bytes(1) [OF byte_bound byte_bound])
  then show ?case
    by (simp add: Let_def b64_text_def b64char_in_alphabet)
next
  case (4 a b c bs)
  have "(unat a * 65536 + unat b * 256 + unat c) div 262144 < 64"
    by (rule b64_three_bytes(1) [OF byte_bound byte_bound byte_bound])
  with "4.IH" show ?case
    by (simp add: Let_def b64_text_def b64char_in_alphabet)
qed


text \<open>
  C8. For every unit of work \<open>f\<close> that \<^verbatim>\<open>dill\<close> serializes to bytes from which it
  loads \<open>f\<close> again: \<^verbatim>\<open>encode_fn\<close> returns a string of Base64 characters, and
  \<^verbatim>\<open>decode_fn\<close> of that string returns \<open>f\<close>.
\<close>

theorem decode_fn_encode_fn:
  assumes "dumps f = Inr bs" and "loads bs = Inr f"
  shows "\<exists>s. encode_fn dumps f = Inr s \<and> set s \<subseteq> b64_text \<and> decode_fn loads s = Inr f"
proof -
  have "encode_fn dumps f = Inr (b64encode bs)"
    by (simp add: encode_fn_def assms(1))
  moreover have "set (b64encode bs) \<subseteq> b64_text"
    by (rule b64encode_text)
  moreover have "decode_fn loads (b64encode bs) = Inr f"
    by (simp add: decode_fn_def b64decode_b64encode assms(2))
  ultimately show ?thesis by blast
qed

theorem decode_fn_encode_fn_witness:
  "encode_fn (\<lambda>n :: nat. if n < 256 then Inr [of_nat n] else Inl (Exception ''PicklingError''))
     77 = Inr ''TQ=='' \<and>
   decode_fn (\<lambda>bs. case bs of [b] \<Rightarrow> Inr (unat b) | _ \<Rightarrow> Inl (Exception ''UnpicklingError''))
     ''TQ=='' = Inr (77 :: nat)"
proof -
  let ?dumps = "\<lambda>n :: nat. if n < 256 then Inr [of_nat n :: byte] else Inl (Exception ''PicklingError'')"
  let ?loads = "\<lambda>bs :: byte list. case bs of [b] \<Rightarrow> Inr (unat b) | _ \<Rightarrow> Inl (Exception ''UnpicklingError'')"
  have enc: "encode_fn ?dumps 77 = Inr ''TQ==''"
    by (simp add: encode_fn_def b64char_def b64alphabet_def)
  have "?dumps 77 = Inr [77]" and "?loads [77] = Inr 77"
    by simp_all
  from decode_fn_encode_fn [of ?dumps 77 "[77]" ?loads, OF this] enc
  have "decode_fn ?loads ''TQ=='' = Inr 77" by auto
  with enc show ?thesis by simp
qed


end
